theory Spec2Isabelle
  imports Main "HOL-Library.AList" "HOL-Library.Char_ord" "HOL-Library.List_Lexorder"
begin

section \<open>docs/build-index.py: strings and the path rewrite\<close>

text \<open>
  The script reads the \<open>index.html\<close> that the \<open>swagger-ui-dist\<close> package ships, changes
  its title, points the relative \<open>link\<close> and \<open>script\<close> references at the vendored copy,
  replaces the inline initializer script, and writes the result beside itself.

  Python strings are modelled as \<open>string\<close>, a \<open>char\<close> standing for a code point below
  256; exceptions are values of \<open>error\<close>, and a computation that may raise returns
  \<open>error + 'a\<close> with \<open>Inl\<close> the exception. The \<open>assert\<close> statements are executed (the
  interpreter does not run with \<open>-O\<close>).
\<close>

datatype error =
    AttributeError    \<comment> \<open>attribute access on \<open>None\<close>\<close>
  | AssertionError    \<comment> \<open>a failed \<open>assert\<close>\<close>
  | KeyError          \<comment> \<open>\<open>tag[key]\<close> on a tag without that attribute\<close>
  | IndexError        \<comment> \<open>list index out of range\<close>
  | OSError           \<comment> \<open>the input file cannot be opened\<close>
  | StaleReference    \<comment> \<open>a path that names no node; never produced by a run\<close>

text \<open>\<open>str.split(sep)\<close> for a one-character separator: the result is never empty.\<close>

fun split :: "char \<Rightarrow> string \<Rightarrow> string list" where
  "split sep [] = [[]]"
| "split sep (c # cs) =
     (if c = sep then [] # split sep cs
      else (case split sep cs of [] \<Rightarrow> [[c]] | p # ps \<Rightarrow> (c # p) # ps))"

text \<open>\<open>sep.join(parts)\<close>.\<close>

fun join :: "string \<Rightarrow> string list \<Rightarrow> string" where
  "join sep [] = []"
| "join sep [x] = x"
| "join sep (x # y # ys) = x @ sep @ join sep (y # ys)"

text \<open>
  \<open>rewrite_link\<close> (lines 39-46): split at \<open>/\<close>, assert that the first part is \<open>.\<close>, and
  join \<open>.\<close>, \<open>node_modules\<close>, \<open>swagger-ui-dist\<close> and the remaining parts with \<open>/\<close>.
\<close>

definition rewrite_link :: "string \<Rightarrow> error + string" where
  "rewrite_link link_str =
     (let link_parts = split CHR ''/'' link_str in
      case link_parts of
        [] \<Rightarrow> Inl IndexError
      | p0 # rest \<Rightarrow>
          if p0 \<noteq> ''.'' then Inl AssertionError
          else Inr (join ''/'' ([''.'', ''node_modules'', ''swagger-ui-dist''] @ rest)))"

section \<open>Regular expressions used by the script\<close>

text \<open>
  The three patterns of the script, \<open>^\./\<close>, \<open>window\.onload\s*=\<close> and
  \<open>SwaggerUIBundle\s*\(\<close>, are sequences of literal characters and \<open>\s*\<close>. A pattern
  is a list of such items; \<open>match_here\<close> matches a pattern at the start of a string and
  \<open>re_search\<close> is \<open>re.search\<close>, which tries every start position.

  \<open>\s\<close> in a \<open>str\<close> pattern is Unicode white space; among the code points a \<open>char\<close>
  holds these are 9-13, 28-32, 133 and 160.
\<close>

definition isspace :: "char \<Rightarrow> bool" where
  "isspace c = (of_char c \<in> set [9, 10, 11, 12, 13, 28, 29, 30, 31, 32, 133, 160 :: nat])"

datatype re_item = Lit char | SpaceStar

fun match_here :: "re_item list \<Rightarrow> string \<Rightarrow> bool" where
  "match_here [] s = True"
| "match_here (Lit c # r) [] = False"
| "match_here (Lit c # r) (x # xs) = (x = c \<and> match_here r xs)"
| "match_here (SpaceStar # r) [] = match_here r []"
| "match_here (SpaceStar # r) (x # xs) =
     ((isspace x \<and> match_here (SpaceStar # r) xs) \<or> match_here r (x # xs))"

fun re_search :: "re_item list \<Rightarrow> string \<Rightarrow> bool" where
  "re_search r [] = match_here r []"
| "re_search r (x # xs) = (match_here r (x # xs) \<or> re_search r xs)"

definition re_literal :: "string \<Rightarrow> re_item list" where
  "re_literal s = map Lit s"

text \<open>\<open>^\./\<close>: anchored at the start, so searching is matching at position 0.\<close>

definition relative_re_search :: "string \<Rightarrow> bool" where
  "relative_re_search v = match_here (re_literal ''./'') v"

text \<open>\<open>window\.onload\s*=\<close> and \<open>SwaggerUIBundle\s*\(\<close>.\<close>

definition onload_re :: "re_item list" where
  "onload_re = re_literal ''window.onload'' @ [SpaceStar, Lit CHR ''='']"

definition bundle_re :: "re_item list" where
  "bundle_re = re_literal ''SwaggerUIBundle'' @ [SpaceStar, Lit CHR ''('']"

section \<open>The parsed document\<close>

text \<open>
  A BeautifulSoup tree: a tag has a name, a dictionary of attributes (in insertion order,
  keys distinct) and a list of children; the other nodes are text (\<open>NavigableString\<close>)
  and the strings that \<open>get_text\<close> skips (\<open>Comment\<close>; a doctype is such a string too,
  and differs from a comment only in how it is written out).
  The \<open>BeautifulSoup\<close> object itself is the tag named \<open>[document]\<close>.

  A Python reference to a node of the tree is its path: the child indices from the root.
\<close>

type_synonym attrs = "(string \<times> string) list"

type_synonym path = "nat list"

datatype node =
    Tag string attrs "node list"
  | NavigableString string
  | Comment string

text \<open>\<open>tag.get_text()\<close>: the text nodes below the tag, concatenated in document order.\<close>

fun get_text :: "node \<Rightarrow> string" where
  "get_text (Tag n a cs) = concat (map get_text cs)"
| "get_text (NavigableString s) = s"
| "get_text (Comment s) = []"

text \<open>\<open>tag.descendants\<close>: every node below the tag, in document order, with its path.\<close>

fun descendants :: "node \<Rightarrow> (path \<times> node) list"
  and descendants_from :: "nat \<Rightarrow> node list \<Rightarrow> (path \<times> node) list" where
  "descendants (Tag n a cs) = descendants_from 0 cs"
| "descendants (NavigableString s) = []"
| "descendants (Comment s) = []"
| "descendants_from i [] = []"
| "descendants_from i (c # cs) =
     ([i], c) # map (\<lambda>(p, x). (i # p, x)) (descendants c) @ descendants_from (Suc i) cs"

text \<open>
  \<open>tag.find_all(...)\<close> keeps the descendants that the search criteria accept, and
  \<open>tag.find(...)\<close> (also written \<open>tag.name\<close>) is the first of them or \<open>None\<close>.
  The criteria only ever accept tags.
\<close>

definition find_all :: "(node \<Rightarrow> bool) \<Rightarrow> node \<Rightarrow> (path \<times> node) list" where
  "find_all crit soup = filter (\<lambda>(p, x). crit x) (descendants soup)"

definition find :: "(node \<Rightarrow> bool) \<Rightarrow> node \<Rightarrow> (path \<times> node) option" where
  "find crit soup = (case find_all crit soup of [] \<Rightarrow> None | r # _ \<Rightarrow> Some r)"

fun name_is :: "string \<Rightarrow> node \<Rightarrow> bool" where
  "name_is t (Tag n a cs) = (n = t)"
| "name_is t _ = False"

text \<open>
  The criteria \<open>(name, attr=re.compile(r'^\./'))\<close>: a tag of that name that has the
  attribute with a value the pattern finds a match in.
\<close>

fun relative_ref :: "string \<Rightarrow> string \<Rightarrow> node \<Rightarrow> bool" where
  "relative_ref t k (Tag n a cs) =
     (n = t \<and> (case map_of a k of None \<Rightarrow> False | Some v \<Rightarrow> relative_re_search v))"
| "relative_ref t k _ = False"

text \<open>
  Mutation through a reference: \<open>modify_at p f soup\<close> replaces the node at path \<open>p\<close> by
  what \<open>f\<close> makes of it, and raises what \<open>f\<close> raises.
\<close>

fun modify_at :: "path \<Rightarrow> (node \<Rightarrow> error + node) \<Rightarrow> node \<Rightarrow> error + node" where
  "modify_at [] f x = f x"
| "modify_at (i # p) f (Tag n a cs) =
     (if i < length cs then
        (case modify_at p f (cs ! i) of
           Inl e \<Rightarrow> Inl e
         | Inr c \<Rightarrow> Inr (Tag n a (cs[i := c])))
      else Inl StaleReference)"
| "modify_at (i # p) f x = Inl StaleReference"

text \<open>\<open>tag.string = s\<close>: the children are cleared and \<open>s\<close> becomes the only child.\<close>

fun set_string :: "string \<Rightarrow> node \<Rightarrow> error + node" where
  "set_string s (Tag n a cs) = Inr (Tag n a [NavigableString s])"
| "set_string s x = Inl AttributeError"

text \<open>\<open>tag[k] = rewrite_link(tag[k])\<close>, the body of both loops.\<close>

fun rewrite_attr :: "string \<Rightarrow> node \<Rightarrow> error + node" where
  "rewrite_attr k (Tag n a cs) =
     (case map_of a k of
        None \<Rightarrow> Inl KeyError
      | Some v \<Rightarrow>
          (case rewrite_link v of
             Inl e \<Rightarrow> Inl e
           | Inr v' \<Rightarrow> Inr (Tag n (AList.update k v' a) cs)))"
| "rewrite_attr k x = Inl KeyError"

text \<open>\<open>for x in found: body(x)\<close>, stopping at the first exception.\<close>

fun for_each :: "(node \<Rightarrow> error + node) \<Rightarrow> (path \<times> node) list \<Rightarrow> node \<Rightarrow> error + node" where
  "for_each body [] soup = Inr soup"
| "for_each body ((p, x) # found) soup =
     (case modify_at p body soup of
        Inl e \<Rightarrow> Inl e
      | Inr soup' \<Rightarrow> for_each body found soup')"

section \<open>The steps of the script\<close>

text \<open>Line 53: \<open>soup.head.title.string = 'Encircle Public API'\<close>.\<close>

definition set_title :: "node \<Rightarrow> error + node" where
  "set_title soup =
     (case find (name_is ''head'') soup of
        None \<Rightarrow> Inl AttributeError
      | Some (hp, head) \<Rightarrow>
          (case find (name_is ''title'') head of
             None \<Rightarrow> Inl AttributeError
           | Some (tp, title) \<Rightarrow>
               modify_at (hp @ tp) (set_string ''Encircle Public API'') soup))"

text \<open>Lines 60-61 and 68-69: the two loops over the relative references.\<close>

definition rewrite_links :: "node \<Rightarrow> error + node" where
  "rewrite_links soup =
     for_each (rewrite_attr ''href'') (find_all (relative_ref ''link'' ''href'') soup) soup"

definition rewrite_scripts :: "node \<Rightarrow> error + node" where
  "rewrite_scripts soup =
     for_each (rewrite_attr ''src'') (find_all (relative_ref ''script'' ''src'') soup) soup"

text \<open>Lines 71-97: \<open>is_initializer_script\<close>, with its early returns.\<close>

fun is_initializer_script :: "node \<Rightarrow> bool" where
  "is_initializer_script (Tag n a cs) =
     (if n \<noteq> ''script'' then False
      else if map_of a ''src'' \<noteq> None then False
      else
        (let text = get_text (Tag n a cs) in
         if \<not> re_search onload_re text then False
         else if \<not> re_search bundle_re text then False
         else True))"
| "is_initializer_script x = False"

text \<open>
  Lines 102-152: the replacement script text, line by line; every line, the empty first
  one included, ends with a newline.
\<close>

definition initializer_template :: string where
  \<open>initializer_template = concat (map (\<lambda>line. line @ [CHR 0x0A])
     ['''',
      ''window.onload = function() {'',
      ''    var parseQuery = function(queryString) {'',
      ''        var query = {};'',
      ''        var pairs = (queryString.charAt(0) === '?' ? queryString.substr(1) : queryString).split('&');'',
      ''        for (var i = 0; i < pairs.length; ++i) {'',
      ''            var pair = pairs[i].split('=');'',
      ''            query[decodeURIComponent(pair[0])] = decodeURIComponent(pair[1] || '' @ [CHR 0x27, CHR 0x27] @ '');'',
      ''        }'',
      ''        return query;'',
      ''    };'',
      '''',
      ''    var query = parseQuery(document.location.search);'',
      '''',
      ''    var urls = [];'',
      '''',
      ''    if (document.location.protocol == 'file:') {'',
      ''        urls.push({'',
      ''            url: 'http://localhost:8890/openapi_v3.json','',
      ''            name: 'localhost:8890','',
      ''        });'',
      ''    }'',
      '''',
      ''    if (query.encircleUrl != null) {'',
      ''        urls.push({'',
      ''            url: query.encircleUrl,'',
      ''            name: query.encircleUrl,'',
      ''        });'',
      ''    }'',
      '''',
      ''    urls.push({'',
      ''        url: 'https://api.encircleapp.com/openapi_v3.json','',
      ''        name: 'api.encircleapp.com','',
      ''    });'',
      '''',
      ''    var ui = SwaggerUIBundle({'',
      ''        urls: urls,'',
      ''        dom_id: '#swagger-ui','',
      ''        defaultModelRendering: 'model','',
      ''        validatorUrl: null,'',
      ''        presets: ['',
      ''            SwaggerUIBundle.presets.apis,'',
      ''            SwaggerUIStandalonePreset'',
      ''        ],'',
      ''        plugins: ['',
      ''            SwaggerUIBundle.plugins.DownloadUrl'',
      ''        ],'',
      ''        layout: "StandaloneLayout"'',
      ''    });'',
      ''};''])\<close>

text \<open>
  Lines 99-152: collect the initializer scripts, assert that there is exactly one, and
  replace its content.
\<close>

definition replace_initializer :: "node \<Rightarrow> error + node" where
  "replace_initializer soup =
     (let init_scripts = find_all is_initializer_script soup in
      if length init_scripts \<noteq> 1 then Inl AssertionError
      else
        (case init_scripts of
           [] \<Rightarrow> Inl IndexError
         | (p, x) # _ \<Rightarrow> modify_at p (set_string initializer_template) soup))"

text \<open>
  Lines 53-69, the steps before the initializer scripts are collected, and lines 53-152,
  from the parsed document to the document that is written.
\<close>

definition before_initializer :: "node \<Rightarrow> error + node" where
  "before_initializer soup =
     (case set_title soup of
        Inl e \<Rightarrow> Inl e
      | Inr soup1 \<Rightarrow>
          (case rewrite_links soup1 of
             Inl e \<Rightarrow> Inl e
           | Inr soup2 \<Rightarrow> rewrite_scripts soup2))"

definition transform :: "node \<Rightarrow> error + node" where
  "transform soup =
     (case before_initializer soup of
        Inl e \<Rightarrow> Inl e
      | Inr soup3 \<Rightarrow> replace_initializer soup3)"

text \<open>
  The run. The two files the script touches are the state: the upstream
  \<open>node_modules/swagger-ui-dist/index.html\<close> and the \<open>index.html\<close> it writes, each
  \<open>None\<close> when it does not exist. The html5lib parser behind \<open>BeautifulSoup(fp, 'html5lib')\<close>
  and \<open>soup.prettify()\<close> are library code outside the repository and are parameters.
  An exception ends the run with the files as they were: the output file is opened only
  on line 154, after every step has succeeded.
\<close>

record files =
  upstream_index :: "string option"
  output_index :: "string option"

definition main :: "(string \<Rightarrow> node) \<Rightarrow> (node \<Rightarrow> string) \<Rightarrow> files \<Rightarrow> files \<times> (error + unit)" where
  "main parse prettify fs =
     (case upstream_index fs of
        None \<Rightarrow> (fs, Inl OSError)
      | Some markup \<Rightarrow>
          (case transform (parse markup) of
             Inl e \<Rightarrow> (fs, Inl e)
           | Inr soup \<Rightarrow> (fs\<lparr>output_index := Some (prettify soup)\<rparr>, Inr ())))"

section \<open>The query-string parser of the emitted script\<close>

text \<open>
  \<open>parseQuery\<close> (lines 104-112 of the script, JavaScript inside the template). The
  \<open>query\<close> object is an association list in insertion order. \<open>decodeURIComponent\<close> is a
  parameter; it returns \<open>None\<close> where the browser's throws \<open>URIError\<close>, and the exception
  ends \<open>parseQuery\<close>.
\<close>

text \<open>\<open>pair[1] || ''\<close>: the second element, or the empty string when there is none.\<close>

fun second_or_empty :: "string list \<Rightarrow> string" where
  "second_or_empty (k # v # rest) = (if v = [] then [] else v)"
| "second_or_empty pair = []"

text \<open>\<open>pair[0]\<close>; \<open>decodeURIComponent(undefined)\<close> would decode the string \<open>undefined\<close>.\<close>

fun first_or_undefined :: "string list \<Rightarrow> string" where
  "first_or_undefined (k # rest) = k"
| "first_or_undefined [] = ''undefined''"

text \<open>
  \<open>query[key] = val\<close> on an object made by \<open>{}\<close>: the own property \<open>key\<close> is set, and
  keeps its place when it exists. The key \<open>__proto__\<close> is the exception: it names the
  accessor inherited from \<open>Object.prototype\<close>, whose setter ignores a string, so nothing
  is recorded.
\<close>

definition set_property :: "string \<Rightarrow> string \<Rightarrow> (string \<times> string) list \<Rightarrow> (string \<times> string) list" where
  "set_property key val query =
     (if key = ''__proto__'' then query else AList.update key val query)"

fun parseQuery_loop ::
  "(string \<Rightarrow> string option) \<Rightarrow> string list \<Rightarrow> (string \<times> string) list
     \<Rightarrow> (string \<times> string) list option" where
  "parseQuery_loop decodeURIComponent [] query = Some query"
| "parseQuery_loop decodeURIComponent (p # pairs) query =
     (let pair = split CHR ''='' p in
      case decodeURIComponent (first_or_undefined pair) of
        None \<Rightarrow> None
      | Some key \<Rightarrow>
          (case decodeURIComponent (second_or_empty pair) of
             None \<Rightarrow> None
           | Some val \<Rightarrow>
               parseQuery_loop decodeURIComponent pairs (set_property key val query)))"

definition query_pairs :: "string \<Rightarrow> string list" where
  "query_pairs queryString =
     split CHR ''&''
       (case queryString of
          [] \<Rightarrow> queryString
        | c # rest \<Rightarrow> if c = CHR ''?'' then rest else queryString)"

definition parseQuery ::
  "(string \<Rightarrow> string option) \<Rightarrow> string \<Rightarrow> (string \<times> string) list option" where
  "parseQuery decodeURIComponent queryString =
     parseQuery_loop decodeURIComponent (query_pairs queryString) []"



section \<open>What the loops amount to\<close>

text \<open>
  For stating the effect of a loop as one pass over the tree: \<open>map_tags g\<close> replaces the
  attributes \<open>a\<close> of every tag named \<open>n\<close> by \<open>g n a\<close> and changes nothing else, and
  \<open>rewritten_attrs t k\<close> is the change a loop makes to one tag: on a tag named \<open>t\<close>
  whose attribute \<open>k\<close> starts with \<open>./\<close>, the value gets the vendor directory inserted
  after \<open>./\<close>; every other tag keeps its attributes.
\<close>

fun map_tags :: "(string \<Rightarrow> attrs \<Rightarrow> attrs) \<Rightarrow> node \<Rightarrow> node" where
  "map_tags g (Tag n a cs) = Tag n (g n a) (map (map_tags g) cs)"
| "map_tags g (NavigableString s) = NavigableString s"
| "map_tags g (Comment s) = Comment s"

fun map_children :: "(string \<Rightarrow> attrs \<Rightarrow> attrs) \<Rightarrow> node \<Rightarrow> node" where
  "map_children g (Tag n a cs) = Tag n a (map (map_tags g) cs)"
| "map_children g x = x"

definition rewritten_attrs :: "string \<Rightarrow> string \<Rightarrow> string \<Rightarrow> attrs \<Rightarrow> attrs" where
  "rewritten_attrs t k n a =
     (case map_of a k of
        None \<Rightarrow> a
      | Some v \<Rightarrow>
          if n = t \<and> take 2 v = ''./''
          then AList.update k (''./node_modules/swagger-ui-dist/'' @ drop 2 v) a
          else a)"

section \<open>The shape of a parsed HTML document\<close>

text \<open>
  An HTML parser reads the content of a \<open>script\<close> and of a \<open>title\<close> element as text:
  in the tree such a tag has text children only. \<open>well_formed\<close> says so of every tag
  of a tree; the properties of the title and of the script texts are about such trees.
\<close>

fun is_string :: "node \<Rightarrow> bool" where
  "is_string (Tag n a cs) = False"
| "is_string (NavigableString s) = True"
| "is_string (Comment s) = True"

fun raw_text_tag :: "node \<Rightarrow> bool" where
  "raw_text_tag (Tag n a cs) = (n = ''script'' \<or> n = ''title'')"
| "raw_text_tag (NavigableString s) = False"
| "raw_text_tag (Comment s) = False"

fun well_formed :: "node \<Rightarrow> bool" where
  "well_formed (Tag n a cs) =
     ((if n = ''script'' \<or> n = ''title'' then list_all is_string cs else True)
      \<and> list_all well_formed cs)"
| "well_formed (NavigableString s) = True"
| "well_formed (Comment s) = True"

text \<open>
  A small document of the upstream shape, for evaluating the run: a title, a relative
  stylesheet link, the bundle script, an inline script that is not the initializer, and
  the initializer script.
\<close>

definition example_index :: node where
  "example_index =
     Tag ''[document]'' []
       [Comment ''doctype'',
        Tag ''html'' []
          [Tag ''head'' []
             [Tag ''title'' [] [NavigableString ''Swagger UI''],
              Tag ''link'' [(''rel'', ''stylesheet''), (''href'', ''./swagger-ui.css'')] []],
           Tag ''body'' []
             [Tag ''div'' [(''id'', ''swagger-ui'')] [],
              Tag ''script'' [(''src'', ''./swagger-ui-bundle.js'')] [],
              Tag ''script'' [] [NavigableString ''var x = 1;''],
              Tag ''script'' []
                [NavigableString ''window.onload = function() { SwaggerUIBundle({}) }'']]]]"

section \<open>What prettify writes\<close>

text \<open>
  \<open>soup.prettify()\<close> is library code; \<open>main\<close> takes it as a parameter, and the properties
  of the run hold for every serialiser. To evaluate what the run writes, this is how
  BeautifulSoup (4.9) pretty-prints a tree with its \<open>minimal\<close> formatter: every tag and
  every text is put on a line of its own, indented by one space for each level of
  nesting; a text is stripped of the white space around it, and a text that is only white
  space is dropped. In text and attribute values \<open>&\<close>, \<open><\<close> and \<open>></\<close> become entities,
  except in the text of a \<open>script\<close> or \<open>style\<close>; attributes are written in the order of
  their names; the content of \<open>pre\<close> and \<open>textarea\<close> is written as it is.
\<close>

text \<open>\<open>str.strip()\<close>.\<close>

definition strip :: "string \<Rightarrow> string" where
  "strip s = dropWhile isspace (rev (dropWhile isspace (rev s)))"

definition substitute_xml :: "string \<Rightarrow> string" where
  "substitute_xml s =
     concat (map (\<lambda>c. if c = CHR ''&'' then ''&amp;''
                       else if c = CHR ''<'' then ''&lt;''
                       else if c = CHR ''>'' then ''&gt;''
                       else [c]) s)"

definition quoted_attribute_value :: "string \<Rightarrow> string" where
  "quoted_attribute_value v =
     (if CHR 0x22 \<in> set v then
        (if CHR 0x27 \<in> set v
         then [CHR 0x22] @ concat (map (\<lambda>c. if c = CHR 0x22 then ''&quot;'' else [c]) v)
                @ [CHR 0x22]
         else [CHR 0x27] @ v @ [CHR 0x27])
      else [CHR 0x22] @ v @ [CHR 0x22])"

definition attribute_string :: "attrs \<Rightarrow> string" where
  "attribute_string a =
     concat (map (\<lambda>(k, v). '' '' @ k @ ''='' @ quoted_attribute_value (substitute_xml v))
              (sort_key fst a))"

definition empty_element_tags :: "string list" where
  "empty_element_tags =
     [''area'', ''base'', ''br'', ''col'', ''embed'', ''hr'', ''img'', ''input'', ''keygen'',
      ''link'', ''menuitem'', ''meta'', ''param'', ''source'', ''track'', ''wbr'',
      ''basefont'', ''bgsound'', ''command'', ''frame'', ''image'', ''isindex'', ''nextid'',
      ''spacer'']"

definition preserve_whitespace_tags :: "string list" where
  "preserve_whitespace_tags = [''pre'', ''textarea'']"

text \<open>
  \<open>string.output_ready(formatter)\<close> for a string whose parent tag is named \<open>parent\<close>.
\<close>

fun output_ready :: "string \<Rightarrow> node \<Rightarrow> string" where
  "output_ready parent (NavigableString s) =
     (if parent = ''script'' \<or> parent = ''style'' then s else substitute_xml s)"
| "output_ready parent (Comment s) = ''<!--'' @ s @ ''-->''"
| "output_ready parent (Tag n a cs) = []"

text \<open>
  \<open>tag.decode(indent_level, ...)\<close> and \<open>tag.decode_contents(indent_level, ...)\<close>. The
  indent level is \<open>None\<close> where nothing is pretty-printed; \<open>has_next\<close> says whether the tag
  has a next sibling, and \<open>parent\<close> is the name of the tag whose contents are decoded.
\<close>

fun decode :: "nat option \<Rightarrow> bool \<Rightarrow> node \<Rightarrow> string"
  and decode_contents :: "nat option \<Rightarrow> string \<Rightarrow> node list \<Rightarrow> string" where
  "decode indent_level has_next (Tag n a cs) =
     (let is_empty_element = (cs = [] \<and> n \<in> set empty_element_tags);
          close = (if is_empty_element then ''/'' else []);
          closeTag = (if is_empty_element then [] else ''</'' @ n @ ''>'');
          pretty_print = (indent_level \<noteq> None \<and> n \<notin> set preserve_whitespace_tags);
          indent_space = (case indent_level of None \<Rightarrow> [] | Some i \<Rightarrow> replicate (i - 1) CHR '' '');
          contents =
            decode_contents
              (if pretty_print then map_option Suc indent_level else None) n cs
      in indent_space
         @ ''<'' @ n @ attribute_string a @ close @ ''>''
         @ (if pretty_print then [CHR 0x0A] else [])
         @ contents
         @ (if pretty_print \<and> contents \<noteq> [] \<and> last contents \<noteq> CHR 0x0A then [CHR 0x0A] else [])
         @ (if pretty_print \<and> closeTag \<noteq> [] then indent_space else [])
         @ closeTag
         @ (if indent_level \<noteq> None \<and> closeTag \<noteq> [] \<and> has_next then [CHR 0x0A] else []))"
| "decode indent_level has_next (NavigableString s) = []"
| "decode indent_level has_next (Comment s) = []"
| "decode_contents indent_level parent [] = []"
| "decode_contents indent_level parent (c # cs) =
     (if is_string c then
        (let preserve_whitespace = (parent \<in> set preserve_whitespace_tags);
             indented = (indent_level \<noteq> None \<and> indent_level \<noteq> Some 0);
             text = output_ready parent c;
             text = (if text \<noteq> [] \<and> indented \<and> \<not> preserve_whitespace then strip text else text)
         in if text \<noteq> [] then
              (if indent_level \<noteq> None \<and> \<not> preserve_whitespace
               then replicate (the indent_level - 1) CHR '' '' else [])
              @ text
              @ (if indent_level \<noteq> None \<and> \<not> preserve_whitespace then [CHR 0x0A] else [])
            else [])
      else decode indent_level (cs \<noteq> []) c)
     @ decode_contents indent_level parent cs"


section \<open>Properties of the path rewrite\<close>

lemma split_not_Nil: "split sep s \<noteq> []"
  by (induction s) (auto split: list.splits)

lemma join_split: "join [sep] (split sep s) = s"
proof (induction s)
  case Nil
  show ?case by simp
next
  case (Cons c cs)
  obtain p ps where sp: "split sep cs = p # ps"
    using split_not_Nil [of sep cs] by (cases "split sep cs") auto
  show ?case
  proof (cases "c = sep")
    case True
    with Cons sp show ?thesis by simp
  next
    case False
    with Cons sp show ?thesis by (cases ps) auto
  qed
qed

lemma join_Cons_split: "join [sep] (x # split sep s) = x @ sep # s"
  using split_not_Nil [of sep s] join_split [of sep s]
  by (cases "split sep s") auto

lemma rewrite_link_relative:
  "rewrite_link (''./'' @ r) = Inr (''./node_modules/swagger-ui-dist/'' @ r)"
  by (simp add: rewrite_link_def join_Cons_split)

text \<open>
  C8. The path rewrite is not idempotent. A path \<open>./r\<close> becomes
  \<open>./node_modules/swagger-ui-dist/r\<close>; that result starts with \<open>./\<close> again, so a second
  application inserts the two vendor segments once more, and the second result is longer
  than, and different from, the first.
\<close>

theorem rewrite_link_not_idempotent:
  "\<exists>p1 p2. rewrite_link (''./'' @ r) = Inr p1 \<and> rewrite_link p1 = Inr p2
     \<and> p1 = ''./node_modules/swagger-ui-dist/'' @ r
     \<and> p2 = ''./node_modules/swagger-ui-dist/node_modules/swagger-ui-dist/'' @ r
     \<and> length p1 < length p2 \<and> p2 \<noteq> p1"
proof -
  have 1: "rewrite_link (''./'' @ r) = Inr (''./node_modules/swagger-ui-dist/'' @ r)"
    by (rule rewrite_link_relative)
  have "rewrite_link (''./'' @ (''node_modules/swagger-ui-dist/'' @ r))
      = Inr (''./node_modules/swagger-ui-dist/'' @ (''node_modules/swagger-ui-dist/'' @ r))"
    by (rule rewrite_link_relative)
  then have 2: "rewrite_link (''./node_modules/swagger-ui-dist/'' @ r)
      = Inr (''./node_modules/swagger-ui-dist/node_modules/swagger-ui-dist/'' @ r)"
    by simp
  show ?thesis using 1 2 by auto
qed

section \<open>What the patterns match\<close>

lemma match_here_literal:
  "match_here (map Lit l @ r) s \<longleftrightarrow> (\<exists>t. s = l @ t \<and> match_here r t)"
proof (induction l arbitrary: s)
  case Nil
  show ?case by simp
next
  case (Cons c l)
  show ?case by (cases s) (auto simp: Cons.IH)
qed

lemma match_here_SpaceStar:
  "match_here (SpaceStar # r) s \<longleftrightarrow>
     (\<exists>ws t. s = ws @ t \<and> list_all isspace ws \<and> match_here r t)"
proof (induction s)
  case Nil
  show ?case by simp
next
  case (Cons x xs)
  show ?case
  proof
    assume "match_here (SpaceStar # r) (x # xs)"
    then consider "isspace x" "match_here (SpaceStar # r) xs" | "match_here r (x # xs)"
      by auto
    then show "\<exists>ws t. x # xs = ws @ t \<and> list_all isspace ws \<and> match_here r t"
    proof cases
      case 1
      then obtain ws t where "xs = ws @ t" "list_all isspace ws" "match_here r t"
        using Cons.IH by blast
      with 1 have "x # xs = (x # ws) @ t \<and> list_all isspace (x # ws) \<and> match_here r t"
        by simp
      then show ?thesis by blast
    next
      case 2
      then have "x # xs = [] @ (x # xs) \<and> list_all isspace [] \<and> match_here r (x # xs)"
        by simp
      then show ?thesis by blast
    qed
  next
    assume "\<exists>ws t. x # xs = ws @ t \<and> list_all isspace ws \<and> match_here r t"
    then obtain ws t where *: "x # xs = ws @ t" "list_all isspace ws" "match_here r t"
      by blast
    show "match_here (SpaceStar # r) (x # xs)"
    proof (cases ws)
      case Nil
      with * have "t = x # xs" by simp
      with * show ?thesis by simp
    next
      case ws: (Cons w ws')
      with * have "x = w" "xs = ws' @ t" "isspace w" "list_all isspace ws'" by auto
      with * Cons.IH show ?thesis by auto
    qed
  qed
qed

lemma re_search_iff:
  "re_search r s \<longleftrightarrow> (\<exists>pre t. s = pre @ t \<and> match_here r t)"
proof (induction s)
  case Nil
  show ?case by simp
next
  case (Cons x xs)
  show ?case
  proof
    assume "re_search r (x # xs)"
    then consider "match_here r (x # xs)" | "re_search r xs" by auto
    then show "\<exists>pre t. x # xs = pre @ t \<and> match_here r t"
    proof cases
      case 1
      then have "x # xs = [] @ (x # xs) \<and> match_here r (x # xs)" by simp
      then show ?thesis by blast
    next
      case 2
      then obtain pre t where "xs = pre @ t" "match_here r t" using Cons.IH by blast
      then have "x # xs = (x # pre) @ t \<and> match_here r t" by simp
      then show ?thesis by blast
    qed
  next
    assume "\<exists>pre t. x # xs = pre @ t \<and> match_here r t"
    then obtain pre t where *: "x # xs = pre @ t" "match_here r t" by blast
    show "re_search r (x # xs)"
    proof (cases pre)
      case Nil
      with * have "t = x # xs" by simp
      with * show ?thesis by simp
    next
      case pre: (Cons p pre')
      with * have "xs = pre' @ t" by simp
      with * Cons.IH show ?thesis by auto
    qed
  qed
qed

lemma match_here_Lit_end:
  "match_here [Lit c] s \<longleftrightarrow> (\<exists>post. s = c # post)"
  by (cases s) auto

lemma marker_search_iff:
  "re_search (re_literal l @ [SpaceStar, Lit c]) s \<longleftrightarrow>
     (\<exists>pre ws post. s = pre @ l @ ws @ [c] @ post \<and> list_all isspace ws)"
  unfolding re_literal_def re_search_iff match_here_literal match_here_SpaceStar
    match_here_Lit_end
  by (metis append_Cons append_Nil)

lemma onload_re_search_iff:
  "re_search onload_re s \<longleftrightarrow>
     (\<exists>pre ws post. s = pre @ ''window.onload'' @ ws @ ''='' @ post \<and> list_all isspace ws)"
  unfolding onload_re_def marker_search_iff by simp

lemma bundle_re_search_iff:
  "re_search bundle_re s \<longleftrightarrow>
     (\<exists>pre ws post. s = pre @ ''SwaggerUIBundle'' @ ws @ ''('' @ post \<and> list_all isspace ws)"
  unfolding bundle_re_def marker_search_iff by simp

lemma relative_re_search_iff: "relative_re_search v \<longleftrightarrow> (\<exists>r. v = ''./'' @ r)"
  unfolding relative_re_search_def re_literal_def
  using match_here_literal [of "''./''" "[]" v] by simp

text \<open>
  C3. \<open>find_all(is_initializer_script)\<close> selects a node of the document exactly when it
  is a tag named \<open>script\<close>, has no \<open>src\<close> attribute, and its text contains both
  \<open>window.onload\<close>, white space, \<open>=\<close> and \<open>SwaggerUIBundle\<close>, white space, \<open>(\<close>,
  which is what the two patterns match.
\<close>

theorem initializer_script_selected_iff:
  "(p, x) \<in> set (find_all is_initializer_script soup) \<longleftrightarrow>
     (p, x) \<in> set (descendants soup)
     \<and> (\<exists>n a cs. x = Tag n a cs \<and> n = ''script'' \<and> map_of a ''src'' = None
          \<and> (\<exists>pre ws post. get_text x = pre @ ''window.onload'' @ ws @ ''='' @ post
                \<and> list_all isspace ws)
          \<and> (\<exists>pre ws post. get_text x = pre @ ''SwaggerUIBundle'' @ ws @ ''('' @ post
                \<and> list_all isspace ws))"
proof (cases x)
  case (Tag n a cs)
  have "is_initializer_script (Tag n a cs) \<longleftrightarrow>
      n = ''script'' \<and> map_of a ''src'' = None
      \<and> re_search onload_re (get_text (Tag n a cs))
      \<and> re_search bundle_re (get_text (Tag n a cs))"
    by (simp add: Let_def del: get_text.simps)
  then show ?thesis
    unfolding find_all_def Tag onload_re_search_iff bundle_re_search_iff by auto
next
  case (NavigableString s)
  then show ?thesis by (simp add: find_all_def)
next
  case (Comment s)
  then show ?thesis by (simp add: find_all_def)
qed

section \<open>What parseQuery records\<close>














section \<open>The loops as one pass over the tree\<close>

lemma for_each_append:
  "for_each body (xs @ ys) soup =
     (case for_each body xs soup of Inl e \<Rightarrow> Inl e | Inr soup' \<Rightarrow> for_each body ys soup')"
proof (induction xs arbitrary: soup)
  case Nil
  show ?case by simp
next
  case (Cons r xs)
  obtain p x where r: "r = (p, x)" by (cases r)
  show ?case unfolding r using Cons.IH by (simp split: sum.splits)
qed

lemma for_each_below:
  assumes "i < length cs"
  shows "for_each body (map (\<lambda>(p, x). (i # p, x)) found) (Tag n a cs) =
     (case for_each body found (cs ! i) of
        Inl e \<Rightarrow> Inl e
      | Inr c \<Rightarrow> Inr (Tag n a (cs[i := c])))"
  using assms
proof (induction found arbitrary: cs)
  case Nil
  then show ?case by simp
next
  case (Cons r found)
  obtain p x where r: "r = (p, x)" by (cases r)
  show ?case
  proof (cases "modify_at p body (cs ! i)")
    case (Inl e)
    with Cons.prems show ?thesis by (simp add: r)
  next
    case (Inr c)
    have len: "i < length (cs[i := c])" using Cons.prems by simp
    have "for_each body (map (\<lambda>(p, x). (i # p, x)) (r # found)) (Tag n a cs) =
        for_each body (map (\<lambda>(p, x). (i # p, x)) found) (Tag n a (cs[i := c]))"
      using Cons.prems Inr by (simp add: r)
    also have "\<dots> = (case for_each body found (cs[i := c] ! i) of
        Inl e \<Rightarrow> Inl e
      | Inr c' \<Rightarrow> Inr (Tag n a (cs[i := c, i := c'])))"
      by (rule Cons.IH [OF len])
    also have "\<dots> = (case for_each body (r # found) (cs ! i) of
        Inl e \<Rightarrow> Inl e
      | Inr c' \<Rightarrow> Inr (Tag n a (cs[i := c'])))"
      using Cons.prems Inr by (simp add: r split: sum.splits)
    finally show ?thesis .
  qed
qed

lemma filter_below:
  "filter (\<lambda>(p, x). crit x) (map (\<lambda>(p, x). (i # p, x)) found) =
     map (\<lambda>(p, x). (i # p, x)) (filter (\<lambda>(p, x). crit x) found)"
  by (induction found) auto

lemma for_each_is_map_tags:
  assumes body: "\<And>n a cs. crit (Tag n a cs) \<Longrightarrow> body (Tag n a cs) = Inr (Tag n (g n a) cs)"
    and frame: "\<And>n a cs. \<not> crit (Tag n a cs) \<Longrightarrow> g n a = a"
    and tags: "\<And>s. \<not> crit (NavigableString s)" "\<And>s. \<not> crit (Comment s)"
  shows "for_each body (filter (\<lambda>(p, x). crit x) (([], c) # descendants c)) c
      = Inr (map_tags g c)"
    and "\<forall>pre n a. length pre = i \<longrightarrow>
      for_each body (filter (\<lambda>(p, x). crit x) (descendants_from i cs)) (Tag n a (pre @ cs))
      = Inr (Tag n a (pre @ map (map_tags g) cs))"
proof (induction c and i cs rule: descendants_descendants_from.induct)
  case (1 n a cs)
  have below: "for_each body (filter (\<lambda>(p, x). crit x) (descendants_from 0 cs)) (Tag n a' cs)
      = Inr (Tag n a' (map (map_tags g) cs))" for a'
    using 1 [rule_format, of "[]" n a'] by simp
  show ?case
  proof (cases "crit (Tag n a cs)")
    case True
    then show ?thesis using body [OF True] below [of "g n a"] by simp
  next
    case False
    then show ?thesis using frame [OF False] below [of a] by simp
  qed
next
  case (2 s)
  show ?case using tags by simp
next
  case (3 s)
  show ?case using tags by simp
next
  case (4 i)
  show ?case by simp
next
  case (5 i c cs)
  show ?case
  proof (intro allI impI)
    fix pre :: "node list" and n a
    assume len: "length pre = i"
    let ?own = "filter (\<lambda>(p, x). crit x) (([], c) # descendants c)"
    let ?rest = "filter (\<lambda>(p, x). crit x) (descendants_from (Suc i) cs)"
    have split_list: "filter (\<lambda>(p, x). crit x) (descendants_from i (c # cs)) =
        map (\<lambda>(p, x). (i # p, x)) ?own @ ?rest"
      by (simp add: filter_below [symmetric])
    have i: "i < length (pre @ c # cs)" and nth: "(pre @ c # cs) ! i = c"
      and upd: "(pre @ c # cs)[i := map_tags g c] = (pre @ [map_tags g c]) @ cs"
      using len by (simp_all add: nth_append list_update_append)
    have "for_each body (map (\<lambda>(p, x). (i # p, x)) ?own) (Tag n a (pre @ c # cs)) =
        Inr (Tag n a ((pre @ [map_tags g c]) @ cs))"
      unfolding for_each_below [OF i] nth "5.IH"(1) using upd by simp
    moreover have "for_each body ?rest (Tag n a ((pre @ [map_tags g c]) @ cs)) =
        Inr (Tag n a ((pre @ [map_tags g c]) @ map (map_tags g) cs))"
      using "5.IH"(2) [rule_format, of "pre @ [map_tags g c]" n a] len by simp
    ultimately show "for_each body (filter (\<lambda>(p, x). crit x) (descendants_from i (c # cs)))
        (Tag n a (pre @ c # cs)) = Inr (Tag n a (pre @ map (map_tags g) (c # cs)))"
      unfolding split_list for_each_append by simp
  qed
qed

lemma for_each_found_is_map_children:
  assumes "\<And>n a cs. crit (Tag n a cs) \<Longrightarrow> body (Tag n a cs) = Inr (Tag n (g n a) cs)"
    and "\<And>n a cs. \<not> crit (Tag n a cs) \<Longrightarrow> g n a = a"
    and "\<And>s. \<not> crit (NavigableString s)" "\<And>s. \<not> crit (Comment s)"
  shows "for_each body (find_all crit soup) soup = Inr (map_children g soup)"
proof (cases soup)
  case (Tag n a cs)
  show ?thesis
  proof -
    have "\<forall>pre n a. length pre = 0 \<longrightarrow>
        for_each body (filter (\<lambda>(p, x). crit x) (descendants_from 0 cs)) (Tag n a (pre @ cs))
        = Inr (Tag n a (pre @ map (map_tags g) cs))"
      by (rule for_each_is_map_tags(2) [OF assms])
    then have "length ([] :: node list) = 0 \<longrightarrow>
        for_each body (filter (\<lambda>(p, x). crit x) (descendants_from 0 cs)) (Tag n a ([] @ cs))
        = Inr (Tag n a ([] @ map (map_tags g) cs))"
      by blast
    then show ?thesis by (simp add: Tag find_all_def)
  qed
next
  case (NavigableString s)
  then show ?thesis by (simp add: find_all_def)
next
  case (Comment s)
  then show ?thesis by (simp add: find_all_def)
qed

lemma take_2_relative: "take 2 v = ''./'' \<longleftrightarrow> (\<exists>rest. v = ''./'' @ rest)"
proof
  assume "take 2 v = ''./''"
  then have "v = ''./'' @ drop 2 v" using append_take_drop_id [of 2 v] by simp
  then show "\<exists>rest. v = ''./'' @ rest" ..
next
  assume "\<exists>rest. v = ''./'' @ rest"
  then show "take 2 v = ''./''" by auto
qed

lemma relative_ref_body:
  assumes "relative_ref t k (Tag n a cs)"
  shows "rewrite_attr k (Tag n a cs) = Inr (Tag n (rewritten_attrs t k n a) cs)"
proof -
  from assms obtain v where v: "map_of a k = Some v" "n = t" "relative_re_search v"
    by (auto split: option.splits)
  then obtain r where r: "v = ''./'' @ r" using relative_re_search_iff by blast
  have "rewrite_link v = Inr (''./node_modules/swagger-ui-dist/'' @ r)"
    unfolding r by (rule rewrite_link_relative)
  with v r show ?thesis by (simp add: rewritten_attrs_def)
qed

lemma relative_ref_frame:
  assumes "\<not> relative_ref t k (Tag n a cs)"
  shows "rewritten_attrs t k n a = a"
proof (cases "map_of a k")
  case None
  then show ?thesis by (simp add: rewritten_attrs_def)
next
  case (Some v)
  with assms have "\<not> (n = t \<and> relative_re_search v)" by simp
  moreover have "relative_re_search v \<longleftrightarrow> take 2 v = ''./''"
    unfolding relative_re_search_iff take_2_relative ..
  ultimately show ?thesis using Some by (auto simp: rewritten_attrs_def)
qed

lemma rewrite_links_is_pass:
  "rewrite_links soup = Inr (map_children (rewritten_attrs ''link'' ''href'') soup)"
  unfolding rewrite_links_def
  by (rule for_each_found_is_map_children [OF relative_ref_body relative_ref_frame]) simp_all

lemma rewrite_scripts_is_pass:
  "rewrite_scripts soup = Inr (map_children (rewritten_attrs ''script'' ''src'') soup)"
  unfolding rewrite_scripts_def
  by (rule for_each_found_is_map_children [OF relative_ref_body relative_ref_frame]) simp_all

lemma descendants_map_tags:
  "descendants (map_tags g c) = map (\<lambda>(p, x). (p, map_tags g x)) (descendants c)"
  "descendants_from i (map (map_tags g) cs) =
     map (\<lambda>(p, x). (p, map_tags g x)) (descendants_from i cs)"
  by (induction c and i cs rule: descendants_descendants_from.induct)
     (simp_all add: case_prod_unfold)

lemma descendants_map_children:
  "descendants (map_children g soup) = map (\<lambda>(p, x). (p, map_tags g x)) (descendants soup)"
  by (cases soup) (simp_all add: descendants_map_tags)

lemma descendants_after_loops:
  "\<exists>soup1 soup2. rewrite_links soup = Inr soup1 \<and> rewrite_scripts soup1 = Inr soup2
     \<and> descendants soup2 =
         map (\<lambda>(p, x). (p, map_tags (rewritten_attrs ''script'' ''src'')
                             (map_tags (rewritten_attrs ''link'' ''href'') x)))
           (descendants soup)"
  by (simp add: rewrite_links_is_pass rewrite_scripts_is_pass descendants_map_children
      case_prod_unfold comp_def)

lemma split_relative:
  "split CHR ''/'' (''./node_modules/swagger-ui-dist/'' @ rest) =
     ''.'' # ''node_modules'' # ''swagger-ui-dist'' # tl (split CHR ''/'' (''./'' @ rest))"
  using split_not_Nil [of "CHR ''/''" rest]
  by (cases "split CHR ''/'' rest") simp_all

lemma rewritten_attrs_other: "n \<noteq> t \<Longrightarrow> rewritten_attrs t k n a = a"
  by (simp add: rewritten_attrs_def split: option.splits)

lemma rewritten_attrs_relative:
  assumes "map_of a k = Some (''./'' @ rest)"
  shows "rewritten_attrs t k t a = AList.update k (''./node_modules/swagger-ui-dist/'' @ rest) a"
  using assms by (simp add: rewritten_attrs_def)

lemma rewritten_attrs_not_relative:
  assumes "\<not> (\<exists>rest. map_of a k = Some (''./'' @ rest))"
  shows "rewritten_attrs t k n a = a"
proof (cases "map_of a k")
  case None
  then show ?thesis by (simp add: rewritten_attrs_def)
next
  case (Some v)
  with assms have "take 2 v \<noteq> ''./''" unfolding take_2_relative by simp
  with Some show ?thesis by (simp add: rewritten_attrs_def)
qed

text \<open>
  C1. Take any tag of the document, the \<open>i\<close>-th node in document order, that is a
  \<open>link\<close> with an \<open>href\<close>, or a \<open>script\<close> with a \<open>src\<close>, of the form \<open>./rest\<close>. Both loops
  run without an exception, and in the resulting document the \<open>i\<close>-th node is the same
  tag at the same place with that attribute equal to \<open>./node_modules/swagger-ui-dist/rest\<close>:
  split at \<open>/\<close>, the new value is \<open>.\<close>, \<open>node_modules\<close>, \<open>swagger-ui-dist\<close> followed by the
  old value's parts after the leading \<open>.\<close>, unchanged and in order.
\<close>

theorem relative_references_rewritten:
  assumes "i < length (descendants soup)"
    and "descendants soup ! i = (p, Tag n a cs)"
    and "(n, k) = (''link'', ''href'') \<or> (n, k) = (''script'', ''src'')"
    and "map_of a k = Some (''./'' @ rest)"
  shows "\<exists>soup1 soup2 a' cs'.
     rewrite_links soup = Inr soup1 \<and> rewrite_scripts soup1 = Inr soup2
     \<and> length (descendants soup2) = length (descendants soup)
     \<and> descendants soup2 ! i = (p, Tag n a' cs')
     \<and> map_of a' k = Some (''./node_modules/swagger-ui-dist/'' @ rest)
     \<and> split CHR ''/'' (''./node_modules/swagger-ui-dist/'' @ rest) =
         ''.'' # ''node_modules'' # ''swagger-ui-dist'' # tl (split CHR ''/'' (''./'' @ rest))"
proof -
  let ?g1 = "rewritten_attrs ''link'' ''href''" and ?g2 = "rewritten_attrs ''script'' ''src''"
  obtain soup1 soup2 where run: "rewrite_links soup = Inr soup1"
    "rewrite_scripts soup1 = Inr soup2"
    and d: "descendants soup2 =
      map (\<lambda>(p, x). (p, map_tags ?g2 (map_tags ?g1 x))) (descendants soup)"
    using descendants_after_loops by blast
  have at_i: "descendants soup2 ! i =
      (p, Tag n (?g2 n (?g1 n a)) (map (map_tags ?g2) (map (map_tags ?g1) cs)))"
    unfolding d using assms(1,2) by simp
  have "map_of (?g2 n (?g1 n a)) k = Some (''./node_modules/swagger-ui-dist/'' @ rest)"
  proof -
    from assms(3) consider "n = ''link''" "k = ''href''" | "n = ''script''" "k = ''src''"
      by auto
    then show ?thesis
    proof cases
      case 1
      then have "?g2 n (?g1 n a) = ?g1 n a"
        by (intro rewritten_attrs_other) simp
      also have "\<dots> = AList.update k (''./node_modules/swagger-ui-dist/'' @ rest) a"
        using assms(4) unfolding 1 by (rule rewritten_attrs_relative)
      finally show ?thesis by (simp add: update_conv')
    next
      case 2
      then have "?g1 n a = a"
        by (intro rewritten_attrs_other) simp
      moreover have "?g2 n a = AList.update k (''./node_modules/swagger-ui-dist/'' @ rest) a"
        using assms(4) unfolding 2 by (rule rewritten_attrs_relative)
      ultimately show ?thesis by (simp add: update_conv')
    qed
  qed
  then have "\<exists>a' cs'. descendants soup2 ! i = (p, Tag n a' cs')
      \<and> map_of a' k = Some (''./node_modules/swagger-ui-dist/'' @ rest)"
    using at_i by blast
  moreover have "length (descendants soup2) = length (descendants soup)"
    unfolding d by simp
  ultimately show ?thesis using run split_relative [of rest] by blast
qed

theorem relative_references_rewritten_witness:
  "\<exists>soup1 soup2 a' cs'.
     rewrite_links (Tag ''[document]'' []
         [Tag ''head'' [] [Tag ''link'' [(''rel'', ''stylesheet''), (''href'', ''./a/b.css'')] []]])
       = Inr soup1
     \<and> rewrite_scripts soup1 = Inr soup2
     \<and> length (descendants soup2) = length (descendants (Tag ''[document]'' []
         [Tag ''head'' [] [Tag ''link'' [(''rel'', ''stylesheet''), (''href'', ''./a/b.css'')] []]]))
     \<and> descendants soup2 ! 1 = ([0, 0], Tag ''link'' a' cs')
     \<and> map_of a' ''href'' = Some (''./node_modules/swagger-ui-dist/'' @ ''a/b.css'')
     \<and> split CHR ''/'' (''./node_modules/swagger-ui-dist/'' @ ''a/b.css'') =
         ''.'' # ''node_modules'' # ''swagger-ui-dist'' # tl (split CHR ''/'' (''./'' @ ''a/b.css''))"
  by (rule relative_references_rewritten
        [where a = "[(''rel'', ''stylesheet''), (''href'', ''./a/b.css'')]" and cs = "[]"])
     simp_all

text \<open>
  C4. Take any tag of the document, the \<open>i\<close>-th node in document order, other than a
  \<open>link\<close> whose \<open>href\<close> starts with \<open>./\<close> and a \<open>script\<close> whose \<open>src\<close> starts with \<open>./\<close>:
  a \<open>link\<close> with another \<open>href\<close> or none, a \<open>script\<close> with another \<open>src\<close> or none, or
  any other tag. After both loops the \<open>i\<close>-th node is the same tag at the same place
  with the same attributes, \<open>href\<close> and \<open>src\<close> among them.
\<close>

theorem other_references_unchanged:
  assumes "i < length (descendants soup)"
    and "descendants soup ! i = (p, Tag n a cs)"
    and "n = ''link'' \<longrightarrow> \<not> (\<exists>rest. map_of a ''href'' = Some (''./'' @ rest))"
    and "n = ''script'' \<longrightarrow> \<not> (\<exists>rest. map_of a ''src'' = Some (''./'' @ rest))"
  shows "\<exists>soup1 soup2 cs'.
     rewrite_links soup = Inr soup1 \<and> rewrite_scripts soup1 = Inr soup2
     \<and> length (descendants soup2) = length (descendants soup)
     \<and> descendants soup2 ! i = (p, Tag n a cs')"
proof -
  let ?g1 = "rewritten_attrs ''link'' ''href''" and ?g2 = "rewritten_attrs ''script'' ''src''"
  obtain soup1 soup2 where run: "rewrite_links soup = Inr soup1"
    "rewrite_scripts soup1 = Inr soup2"
    and d: "descendants soup2 =
      map (\<lambda>(p, x). (p, map_tags ?g2 (map_tags ?g1 x))) (descendants soup)"
    using descendants_after_loops by blast
  have at_i: "descendants soup2 ! i =
      (p, Tag n (?g2 n (?g1 n a)) (map (map_tags ?g2) (map (map_tags ?g1) cs)))"
    unfolding d using assms(1,2) by simp
  have "?g1 n a = a"
  proof (cases "n = ''link''")
    case True
    with assms(3) show ?thesis by (intro rewritten_attrs_not_relative) simp
  next
    case False
    then show ?thesis by (rule rewritten_attrs_other)
  qed
  moreover have "?g2 n a = a"
  proof (cases "n = ''script''")
    case True
    with assms(4) show ?thesis by (intro rewritten_attrs_not_relative) simp
  next
    case False
    then show ?thesis by (rule rewritten_attrs_other)
  qed
  ultimately have "\<exists>cs'. descendants soup2 ! i = (p, Tag n a cs')"
    using at_i by simp
  moreover have "length (descendants soup2) = length (descendants soup)"
    unfolding d by simp
  ultimately show ?thesis using run by blast
qed

theorem other_references_unchanged_witness:
  "\<exists>soup1 soup2 cs'.
     rewrite_links (Tag ''[document]'' []
         [Tag ''link'' [(''href'', ''https://example.org/./a.css'')] [],
          Tag ''script'' [(''src'', ''../b.js'')] []])
       = Inr soup1
     \<and> rewrite_scripts soup1 = Inr soup2
     \<and> length (descendants soup2) = length (descendants (Tag ''[document]'' []
         [Tag ''link'' [(''href'', ''https://example.org/./a.css'')] [],
          Tag ''script'' [(''src'', ''../b.js'')] []]))
     \<and> descendants soup2 ! 1 = ([1], Tag ''script'' [(''src'', ''../b.js'')] cs')"
  by (rule other_references_unchanged [where cs = "[]"]) simp_all

section \<open>Paths into the tree\<close>

lemma descendants_from_append:
  "descendants_from k (xs @ ys) = descendants_from k xs @ descendants_from (k + length xs) ys"
  by (induction xs arbitrary: k) simp_all

lemma in_descendants_from:
  "(q, y) \<in> set (descendants_from k cs) \<longleftrightarrow>
     (\<exists>i p. i < length cs \<and> q = (k + i) # p \<and> (p, y) \<in> set (([], cs ! i) # descendants (cs ! i)))"
proof (induction cs arbitrary: k)
  case Nil
  show ?case by simp
next
  case (Cons c cs)
  have here: "(q, y) \<in> set (([k], c) # map (\<lambda>(p, x). (k # p, x)) (descendants c)) \<longleftrightarrow>
      (\<exists>p. q = k # p \<and> (p, y) \<in> set (([], c) # descendants c))"
    by auto
  have later: "(\<exists>i p. i < length cs \<and> q = (Suc k + i) # p
        \<and> (p, y) \<in> set (([], cs ! i) # descendants (cs ! i))) \<longleftrightarrow>
      (\<exists>i p. 0 < i \<and> i < Suc (length cs) \<and> q = (k + i) # p
        \<and> (p, y) \<in> set (([], (c # cs) ! i) # descendants ((c # cs) ! i)))"
  proof
    assume "\<exists>i p. i < length cs \<and> q = (Suc k + i) # p
        \<and> (p, y) \<in> set (([], cs ! i) # descendants (cs ! i))"
    then obtain i p where "i < length cs" "q = (Suc k + i) # p"
      "(p, y) \<in> set (([], cs ! i) # descendants (cs ! i))" by blast
    then have "0 < Suc i \<and> Suc i < Suc (length cs) \<and> q = (k + Suc i) # p
        \<and> (p, y) \<in> set (([], (c # cs) ! Suc i) # descendants ((c # cs) ! Suc i))"
      by simp
    then show "\<exists>i p. 0 < i \<and> i < Suc (length cs) \<and> q = (k + i) # p
        \<and> (p, y) \<in> set (([], (c # cs) ! i) # descendants ((c # cs) ! i))"
      by blast
  next
    assume "\<exists>i p. 0 < i \<and> i < Suc (length cs) \<and> q = (k + i) # p
        \<and> (p, y) \<in> set (([], (c # cs) ! i) # descendants ((c # cs) ! i))"
    then obtain i p where i: "0 < i" "i < Suc (length cs)" "q = (k + i) # p"
      "(p, y) \<in> set (([], (c # cs) ! i) # descendants ((c # cs) ! i))" by blast
    then obtain j where j: "i = Suc j" by (cases i) auto
    with i have "j < length cs \<and> q = (Suc k + j) # p
        \<and> (p, y) \<in> set (([], cs ! j) # descendants (cs ! j))"
      by simp
    then show "\<exists>i p. i < length cs \<and> q = (Suc k + i) # p
        \<and> (p, y) \<in> set (([], cs ! i) # descendants (cs ! i))"
      by blast
  qed
  have "(q, y) \<in> set (descendants_from k (c # cs)) \<longleftrightarrow>
      (q, y) \<in> set (([k], c) # map (\<lambda>(p, x). (k # p, x)) (descendants c))
      \<or> (q, y) \<in> set (descendants_from (Suc k) cs)"
    by auto
  also have "\<dots> \<longleftrightarrow> (\<exists>p. q = k # p \<and> (p, y) \<in> set (([], c) # descendants c))
      \<or> (\<exists>i p. 0 < i \<and> i < Suc (length cs) \<and> q = (k + i) # p
        \<and> (p, y) \<in> set (([], (c # cs) ! i) # descendants ((c # cs) ! i)))"
    unfolding here Cons.IH later ..
  also have "\<dots> \<longleftrightarrow> (\<exists>i p. i < length (c # cs) \<and> q = (k + i) # p
        \<and> (p, y) \<in> set (([], (c # cs) ! i) # descendants ((c # cs) ! i)))"
  proof
    assume "(\<exists>p. q = k # p \<and> (p, y) \<in> set (([], c) # descendants c))
      \<or> (\<exists>i p. 0 < i \<and> i < Suc (length cs) \<and> q = (k + i) # p
        \<and> (p, y) \<in> set (([], (c # cs) ! i) # descendants ((c # cs) ! i)))"
    then show "\<exists>i p. i < length (c # cs) \<and> q = (k + i) # p
        \<and> (p, y) \<in> set (([], (c # cs) ! i) # descendants ((c # cs) ! i))"
    proof
      assume "\<exists>p. q = k # p \<and> (p, y) \<in> set (([], c) # descendants c)"
      then obtain p where "q = k # p" "(p, y) \<in> set (([], c) # descendants c)" by blast
      then have "0 < length (c # cs) \<and> q = (k + 0) # p
          \<and> (p, y) \<in> set (([], (c # cs) ! 0) # descendants ((c # cs) ! 0))"
        by simp
      then show ?thesis by blast
    next
      assume "\<exists>i p. 0 < i \<and> i < Suc (length cs) \<and> q = (k + i) # p
        \<and> (p, y) \<in> set (([], (c # cs) ! i) # descendants ((c # cs) ! i))"
      then show ?thesis by auto
    qed
  next
    assume "\<exists>i p. i < length (c # cs) \<and> q = (k + i) # p
        \<and> (p, y) \<in> set (([], (c # cs) ! i) # descendants ((c # cs) ! i))"
    then obtain i p where i: "i < length (c # cs)" "q = (k + i) # p"
      "(p, y) \<in> set (([], (c # cs) ! i) # descendants ((c # cs) ! i))" by blast
    show "(\<exists>p. q = k # p \<and> (p, y) \<in> set (([], c) # descendants c))
      \<or> (\<exists>i p. 0 < i \<and> i < Suc (length cs) \<and> q = (k + i) # p
        \<and> (p, y) \<in> set (([], (c # cs) ! i) # descendants ((c # cs) ! i)))"
    proof (cases "i = 0")
      case True
      with i have "q = k # p \<and> (p, y) \<in> set (([], c) # descendants c)" by simp
      then show ?thesis by blast
    next
      case False
      with i have "0 < i \<and> i < Suc (length cs) \<and> q = (k + i) # p
        \<and> (p, y) \<in> set (([], (c # cs) ! i) # descendants ((c # cs) ! i))" by simp
      then show ?thesis by blast
    qed
  qed
  finally show ?case .
qed

lemma in_descendants_Tag:
  "(q, y) \<in> set (descendants (Tag n a cs)) \<longleftrightarrow>
     (\<exists>i p. i < length cs \<and> q = i # p \<and> (p, y) \<in> set (([], cs ! i) # descendants (cs ! i)))"
  using in_descendants_from [of q y 0 cs] by simp

lemma descendants_path_not_Nil: "(q, y) \<in> set (descendants c) \<Longrightarrow> q \<noteq> []"
  by (cases c) (auto simp: in_descendants_from)

lemma descendants_of_string: "is_string c \<Longrightarrow> descendants c = []"
  by (cases c) simp_all

lemma path_names_one_node:
  assumes "(q, y) \<in> set (([], c) # descendants c)"
    and "(q, y') \<in> set (([], c) # descendants c)"
  shows "y = y'"
  using assms
proof (induction q arbitrary: c)
  case Nil
  then show ?case using descendants_path_not_Nil by fastforce
next
  case (Cons j q)
  from Cons.prems have in_c: "(j # q, y) \<in> set (descendants c)"
    "(j # q, y') \<in> set (descendants c)" by auto
  then obtain n a cs where c: "c = Tag n a cs" by (cases c) auto
  from in_c have "(q, y) \<in> set (([], cs ! j) # descendants (cs ! j))"
    "(q, y') \<in> set (([], cs ! j) # descendants (cs ! j))"
    unfolding c in_descendants_Tag by auto
  then show ?case by (rule Cons.IH)
qed

lemma descendants_trans:
  assumes "(hp, h) \<in> set (([], c) # descendants c)"
    and "(tp, t) \<in> set (descendants h)"
  shows "(hp @ tp, t) \<in> set (descendants c)"
  using assms
proof (induction hp arbitrary: c)
  case Nil
  then have "h = c" using descendants_path_not_Nil by fastforce
  with Nil show ?case by simp
next
  case (Cons j hp)
  from Cons.prems have in_c: "(j # hp, h) \<in> set (descendants c)" by auto
  then obtain n a cs where c: "c = Tag n a cs" by (cases c) auto
  from in_c have j: "j < length cs" "(hp, h) \<in> set (([], cs ! j) # descendants (cs ! j))"
    unfolding c in_descendants_Tag by auto
  from Cons.IH [OF j(2) Cons.prems(2)]
  have "(hp @ tp, t) \<in> set (([], cs ! j) # descendants (cs ! j))" by simp
  with j(1) show ?case unfolding c in_descendants_Tag by auto
qed

lemma descendants_from_update:
  assumes "i < length cs"
  shows "descendants_from k (cs[i := c]) =
     descendants_from k (take i cs)
     @ map (\<lambda>(p, x). ((k + i) # p, x)) (([], c) # descendants c)
     @ descendants_from (Suc (k + i)) (drop (Suc i) cs)"
proof -
  have "cs[i := c] = take i cs @ c # drop (Suc i) cs"
    using assms by (rule upd_conv_take_nth_drop)
  then show ?thesis
    using assms by (simp add: descendants_from_append)
qed

lemma descendants_from_nth:
  assumes "i < length cs"
  shows "descendants_from k cs =
     descendants_from k (take i cs)
     @ map (\<lambda>(p, x). ((k + i) # p, x)) (([], cs ! i) # descendants (cs ! i))
     @ descendants_from (Suc (k + i)) (drop (Suc i) cs)"
  using descendants_from_update [OF assms, of k "cs ! i"] by simp

section \<open>Replacing the text of a script or title\<close>

lemma raw_text_tag_not_string: "is_string y \<Longrightarrow> \<not> raw_text_tag y"
  by (cases y) simp_all

lemma no_raw_text_tag_below_strings:
  "list_all is_string cs \<Longrightarrow> filter (\<lambda>(q, y). raw_text_tag y) (descendants_from k cs) = []"
  by (induction cs arbitrary: k)
     (simp_all add: descendants_of_string raw_text_tag_not_string)

lemma well_formed_child:
  assumes "well_formed (Tag n a cs)" and "j < length cs"
  shows "well_formed (cs ! j)"
  using assms by (simp add: list_all_length)

lemma well_formed_update:
  assumes "well_formed (Tag n a cs)" and "well_formed c" and "\<not> (n = ''script'' \<or> n = ''title'')"
  shows "well_formed (Tag n a (cs[j := c]))"
proof -
  have "set (cs[j := c]) \<subseteq> insert c (set cs)" by (rule set_update_subset_insert)
  with assms show ?thesis by (auto simp: list_all_iff)
qed

lemma set_string_raw_text:
  assumes "well_formed c"
    and "(p, Tag n0 a0 cs0) \<in> set (([], c) # descendants c)"
    and "n0 = ''script'' \<or> n0 = ''title''"
  shows "\<exists>c'. modify_at p (set_string s) c = Inr c' \<and> well_formed c'
     \<and> filter (\<lambda>(q, y). raw_text_tag y) (([], c') # descendants c') =
        map (\<lambda>(q, y). if q = p then (q, Tag n0 a0 [NavigableString s]) else (q, y))
          (filter (\<lambda>(q, y). raw_text_tag y) (([], c) # descendants c))"
  using assms(1,2)
proof (induction p arbitrary: c)
  case Nil
  then have c: "c = Tag n0 a0 cs0" using descendants_path_not_Nil by fastforce
  with Nil.prems(1) assms(3) have "list_all is_string cs0" by auto
  then have "filter (\<lambda>(q, y). raw_text_tag y) (descendants_from 0 cs0) = []"
    by (rule no_raw_text_tag_below_strings)
  then show ?case using assms(3) by (simp add: c)
next
  case (Cons j p)
  let ?raw = "\<lambda>(q :: path, y). raw_text_tag y"
  let ?new = "Tag n0 a0 [NavigableString s]"
  from Cons.prems(2) have in_c: "(j # p, Tag n0 a0 cs0) \<in> set (descendants c)" by auto
  then obtain n a cs where c: "c = Tag n a cs" by (cases c) auto
  from in_c have j: "j < length cs"
    and below: "(p, Tag n0 a0 cs0) \<in> set (([], cs ! j) # descendants (cs ! j))"
    unfolding c in_descendants_Tag by auto
  have wf_j: "well_formed (cs ! j)"
    using Cons.prems(1) j unfolding c by (rule well_formed_child)
  have not_raw: "\<not> (n = ''script'' \<or> n = ''title'')"
  proof
    assume "n = ''script'' \<or> n = ''title''"
    with Cons.prems(1) have "list_all is_string cs" by (auto simp: c)
    with j have str: "is_string (cs ! j)" by (simp add: list_all_length)
    with below have "Tag n0 a0 cs0 = cs ! j" by (simp add: descendants_of_string)
    with str show False by (metis is_string.simps(1))
  qed
  from Cons.IH [OF wf_j below] obtain cj where
    mod: "modify_at p (set_string s) (cs ! j) = Inr cj" and wf_cj: "well_formed cj"
    and raws: "filter ?raw (([], cj) # descendants cj) =
      map (\<lambda>(q, y). if q = p then (q, ?new) else (q, y))
        (filter ?raw (([], cs ! j) # descendants (cs ! j)))"
    by blast
  let ?A = "descendants_from 0 (take j cs)"
  let ?B = "descendants_from (Suc j) (drop (Suc j) cs)"
  let ?upd = "\<lambda>(q, y). if q = j # p then (q, ?new) else (q, y)"
  have before: "descendants (Tag n a cs) =
      ?A @ map (\<lambda>(p, x). (j # p, x)) (([], cs ! j) # descendants (cs ! j)) @ ?B"
    using descendants_from_nth [OF j, of 0] by simp
  have after: "descendants (Tag n a (cs[j := cj])) =
      ?A @ map (\<lambda>(p, x). (j # p, x)) (([], cj) # descendants cj) @ ?B"
    using descendants_from_update [OF j, of 0 cj] by simp
  have A: "map ?upd (filter ?raw ?A) = filter ?raw ?A"
  proof (rule map_idI)
    fix r assume "r \<in> set (filter ?raw ?A)"
    then obtain q y where "r = (q, y)" "(q, y) \<in> set ?A" by auto
    moreover from this obtain i q' where "i < length (take j cs)" "q = (0 + i) # q'"
      unfolding in_descendants_from by blast
    ultimately show "?upd r = r" by auto
  qed
  have B: "map ?upd (filter ?raw ?B) = filter ?raw ?B"
  proof (rule map_idI)
    fix r assume "r \<in> set (filter ?raw ?B)"
    then obtain q y where "r = (q, y)" "(q, y) \<in> set ?B" by auto
    moreover from this obtain i q' where "q = (Suc j + i) # q'"
      unfolding in_descendants_from by blast
    ultimately show "?upd r = r" by auto
  qed
  have mid: "filter ?raw (map (\<lambda>(p, x). (j # p, x)) (([], cj) # descendants cj)) =
      map ?upd (filter ?raw (map (\<lambda>(p, x). (j # p, x)) (([], cs ! j) # descendants (cs ! j))))"
  proof -
    have "(\<lambda>(p, x). (j # p, x)) \<circ> (\<lambda>(q, y). if q = p then (q, ?new) else (q, y)) =
        ?upd \<circ> (\<lambda>(p, x). (j # p, x))"
      by (auto simp: fun_eq_iff)
    then have swap: "map (\<lambda>(p, x). (j # p, x))
          (map (\<lambda>(q, y). if q = p then (q, ?new) else (q, y)) found) =
        map ?upd (map (\<lambda>(p, x). (j # p, x)) found)" for found :: "(path \<times> node) list"
      unfolding map_map by simp
    have "filter ?raw (map (\<lambda>(p, x). (j # p, x)) (([], cj) # descendants cj)) =
        map (\<lambda>(p, x). (j # p, x)) (filter ?raw (([], cj) # descendants cj))"
      by (rule filter_below)
    also have "\<dots> = map ?upd (map (\<lambda>(p, x). (j # p, x))
        (filter ?raw (([], cs ! j) # descendants (cs ! j))))"
      unfolding raws by (rule swap)
    also have "\<dots> = map ?upd (filter ?raw
        (map (\<lambda>(p, x). (j # p, x)) (([], cs ! j) # descendants (cs ! j))))"
      unfolding filter_below ..
    finally show ?thesis .
  qed
  have "modify_at (j # p) (set_string s) c = Inr (Tag n a (cs[j := cj]))"
    using j mod by (simp add: c)
  moreover have "well_formed (Tag n a (cs[j := cj]))"
    using Cons.prems(1) wf_cj not_raw unfolding c by (rule well_formed_update)
  moreover have "filter ?raw (([], Tag n a (cs[j := cj])) # descendants (Tag n a (cs[j := cj])))
      = map ?upd (filter ?raw (([], c) # descendants c))"
  proof -
    have "filter ?raw (([], Tag n a (cs[j := cj])) # descendants (Tag n a (cs[j := cj]))) =
        filter ?raw ?A @ filter ?raw (map (\<lambda>(p, x). (j # p, x)) (([], cj) # descendants cj))
        @ filter ?raw ?B"
      unfolding after using not_raw by simp
    also have "\<dots> = map ?upd (filter ?raw ?A)
        @ map ?upd (filter ?raw (map (\<lambda>(p, x). (j # p, x)) (([], cs ! j) # descendants (cs ! j))))
        @ map ?upd (filter ?raw ?B)"
      unfolding A B mid ..
    also have "\<dots> = map ?upd (filter ?raw (([], c) # descendants c))"
      unfolding c before using not_raw by simp
    finally show ?thesis .
  qed
  ultimately show ?case by blast
qed

section \<open>The effect of each step on the scripts and titles\<close>

lemma find_all_member:
  "(p, x) \<in> set (find_all crit c) \<longleftrightarrow> (p, x) \<in> set (descendants c) \<and> crit x"
  by (auto simp: find_all_def)

lemma find_Some:
  assumes "find crit c = Some (p, x)"
  shows "(p, x) \<in> set (descendants c)" and "crit x"
proof -
  from assms obtain rest where "find_all crit c = (p, x) # rest"
    by (auto simp: find_def split: list.splits)
  then have "(p, x) \<in> set (find_all crit c)" by simp
  then show "(p, x) \<in> set (descendants c)" and "crit x"
    unfolding find_all_member by simp_all
qed

lemma name_is_Tag: "name_is t x \<Longrightarrow> \<exists>a cs. x = Tag t a cs"
  by (cases x) simp_all

lemma set_string_raw_text_below:
  assumes "well_formed soup"
    and "(p, Tag n0 a0 cs0) \<in> set (descendants soup)"
    and "n0 = ''script'' \<or> n0 = ''title''"
  shows "\<exists>soup'. modify_at p (set_string s) soup = Inr soup' \<and> well_formed soup'
     \<and> filter (\<lambda>(q, y). raw_text_tag y) (descendants soup') =
        map (\<lambda>(q, y). if q = p then (q, Tag n0 a0 [NavigableString s]) else (q, y))
          (filter (\<lambda>(q, y). raw_text_tag y) (descendants soup))"
proof -
  let ?raw = "\<lambda>(q :: path, y). raw_text_tag y"
  let ?upd = "\<lambda>(q, y). if q = p then (q, Tag n0 a0 [NavigableString s]) else (q, y)"
  from assms(2) obtain n a cs where soup: "soup = Tag n a cs" by (cases soup) auto
  from assms(2) obtain j p' where p: "p = j # p'"
    using descendants_path_not_Nil by (cases p) auto
  have not_raw: "\<not> (n = ''script'' \<or> n = ''title'')"
  proof
    assume "n = ''script'' \<or> n = ''title''"
    with assms(1) have "list_all is_string cs" by (auto simp: soup)
    then have "filter ?raw (descendants_from 0 cs) = []"
      by (rule no_raw_text_tag_below_strings)
    moreover have "(p, Tag n0 a0 cs0) \<in> set (filter ?raw (descendants_from 0 cs))"
      using assms(2,3) by (simp add: soup)
    ultimately show False by simp
  qed
  from assms(2) have "(p, Tag n0 a0 cs0) \<in> set (([], soup) # descendants soup)" by simp
  from set_string_raw_text [OF assms(1) this assms(3), of s] obtain soup' where
    mod: "modify_at p (set_string s) soup = Inr soup'" and wf: "well_formed soup'"
    and raws: "filter ?raw (([], soup') # descendants soup') =
      map ?upd (filter ?raw (([], soup) # descendants soup))"
    by blast
  from mod obtain cs' where soup': "soup' = Tag n a cs'"
    unfolding soup p by (auto split: if_splits sum.splits)
  from raws not_raw have "filter ?raw (descendants soup') = map ?upd (filter ?raw (descendants soup))"
    unfolding soup soup' by simp
  with mod wf show ?thesis by blast
qed

lemma set_title_effect:
  assumes "well_formed soup" and "set_title soup = Inr soup1"
  shows "\<exists>pt a0 cs0. (pt, Tag ''title'' a0 cs0) \<in> set (descendants soup) \<and> well_formed soup1
     \<and> filter (\<lambda>(q, y). raw_text_tag y) (descendants soup1) =
        map (\<lambda>(q, y). if q = pt then (q, Tag ''title'' a0 [NavigableString ''Encircle Public API''])
                        else (q, y))
          (filter (\<lambda>(q, y). raw_text_tag y) (descendants soup))"
proof -
  from assms(2) obtain hp head tp title where
    head: "find (name_is ''head'') soup = Some (hp, head)"
    and title: "find (name_is ''title'') head = Some (tp, title)"
    and mod: "modify_at (hp @ tp) (set_string ''Encircle Public API'') soup = Inr soup1"
    by (auto simp: set_title_def split: option.splits)
  from find_Some [OF title] obtain a0 cs0 where
    t: "title = Tag ''title'' a0 cs0" "(tp, Tag ''title'' a0 cs0) \<in> set (descendants head)"
    using name_is_Tag by blast
  from find_Some(1) [OF head] have "(hp, head) \<in> set (([], soup) # descendants soup)" by simp
  from descendants_trans [OF this t(2)]
  have in_soup: "(hp @ tp, Tag ''title'' a0 cs0) \<in> set (descendants soup)" .
  from set_string_raw_text_below [OF assms(1) in_soup, of "''Encircle Public API''"] mod
  show ?thesis using in_soup by auto
qed

lemma is_string_map_tags: "is_string (map_tags g x) = is_string x"
  by (cases x) simp_all

lemma raw_text_tag_map_tags: "raw_text_tag (map_tags g x) = raw_text_tag x"
  by (cases x) simp_all


lemma well_formed_map_tags: "well_formed (map_tags g x) = well_formed x"
  by (induction x) (simp_all add: list_all_iff is_string_map_tags)

lemma well_formed_map_children: "well_formed (map_children g x) = well_formed x"
  by (cases x) (simp_all add: list_all_iff is_string_map_tags well_formed_map_tags)

lemma get_text_map_tags: "get_text (map_tags g x) = get_text x"
  by (induction x) (simp_all add: comp_def cong: map_cong)

lemma src_rewritten_attrs:
  "map_of (rewritten_attrs t k n a) ''src'' = None \<longleftrightarrow> map_of a ''src'' = None"
  by (auto simp: rewritten_attrs_def update_conv' split: option.splits)

lemma is_initializer_script_map_tags:
  "is_initializer_script (map_tags (rewritten_attrs t k) x) = is_initializer_script x"
proof (cases x)
  case (Tag n a cs)
  have "get_text (map_tags (rewritten_attrs t k) (Tag n a cs)) = get_text (Tag n a cs)"
    by (rule get_text_map_tags)
  then have "concat (map get_text (map (map_tags (rewritten_attrs t k)) cs)) =
      concat (map get_text cs)" by simp
  then show ?thesis by (simp add: Tag src_rewritten_attrs Let_def del: map_map)
qed simp_all

lemma loops_effect:
  "\<exists>soup2 soup3. rewrite_links soup1 = Inr soup2 \<and> rewrite_scripts soup2 = Inr soup3
     \<and> well_formed soup3 = well_formed soup1
     \<and> descendants soup3 =
         map (\<lambda>(p, x). (p, map_tags (rewritten_attrs ''script'' ''src'')
                             (map_tags (rewritten_attrs ''link'' ''href'') x)))
           (descendants soup1)"
  by (simp add: rewrite_links_is_pass rewrite_scripts_is_pass descendants_map_children
      well_formed_map_children case_prod_unfold comp_def)



section \<open>Scripts, titles and initializer scripts through the run\<close>

lemma filter_map_same:
  "(\<And>r. r \<in> set found \<Longrightarrow> P (f r) = P r) \<Longrightarrow> filter P (map f found) = map f (filter P found)"
  by (induction found) auto

lemma filter_map_untouched:
  "(\<And>r. r \<in> set found \<Longrightarrow> P (f r) = P r) \<Longrightarrow> (\<And>r. r \<in> set found \<Longrightarrow> P r \<Longrightarrow> f r = r)
     \<Longrightarrow> filter P (map f found) = filter P found"
  by (induction found) auto

lemma find_all_raw_text:
  assumes "\<And>x. crit x \<Longrightarrow> raw_text_tag x"
  shows "find_all crit soup =
     filter (\<lambda>(q, y). crit y) (filter (\<lambda>(q, y). raw_text_tag y) (descendants soup))"
proof -
  have "(\<lambda>r. (case r of (q :: path, y) \<Rightarrow> raw_text_tag y) \<and> (case r of (q, y) \<Rightarrow> crit y))
      = (\<lambda>(q, y). crit y)"
    using assms by (auto simp: fun_eq_iff)
  then show ?thesis by (simp add: find_all_def)
qed



lemma initializer_raw_text: "is_initializer_script x \<Longrightarrow> raw_text_tag x"
  by (cases x) (auto split: if_splits)

lemma set_title_keeps:
  assumes "well_formed soup" and "set_title soup = Inr soup1"
    and raw: "\<And>x. crit x \<Longrightarrow> raw_text_tag x"
    and not_title: "\<And>a cs. \<not> crit (Tag ''title'' a cs)"
  shows "find_all crit soup1 = find_all crit soup"
proof -
  let ?raw = "\<lambda>(q :: path, y). raw_text_tag y"
  from set_title_effect [OF assms(1,2)] obtain pt a0 cs0 where
    title: "(pt, Tag ''title'' a0 cs0) \<in> set (descendants soup)"
    and raws: "filter ?raw (descendants soup1) =
      map (\<lambda>(q, y). if q = pt then (q, Tag ''title'' a0 [NavigableString ''Encircle Public API''])
                      else (q, y))
        (filter ?raw (descendants soup))"
    by blast
  let ?upd = "\<lambda>(q, y). if q = pt then (q, Tag ''title'' a0 [NavigableString ''Encircle Public API''])
                      else (q, y)"
  have at_pt: "y = Tag ''title'' a0 cs0" if "(pt, y) \<in> set (descendants soup)" for y
    using path_names_one_node [of pt y soup "Tag ''title'' a0 cs0"] that title by simp
  have same: "filter (\<lambda>(q, y). crit y) (map ?upd (filter ?raw (descendants soup))) =
      filter (\<lambda>(q, y). crit y) (filter ?raw (descendants soup))"
  proof (rule filter_map_untouched)
    fix r assume "r \<in> set (filter ?raw (descendants soup))"
    then obtain q y where r: "r = (q, y)" "(q, y) \<in> set (descendants soup)" by auto
    show "(case ?upd r of (q, y) \<Rightarrow> crit y) = (case r of (q, y) \<Rightarrow> crit y)"
      using r at_pt not_title by auto
    show "?upd r = r" if "case r of (q, y) \<Rightarrow> crit y"
      using r at_pt not_title that by auto
  qed
  have "find_all crit soup1 = filter (\<lambda>(q, y). crit y) (filter ?raw (descendants soup1))"
    using raw by (rule find_all_raw_text)
  also have "\<dots> = filter (\<lambda>(q, y). crit y) (map ?upd (filter ?raw (descendants soup)))"
    by (simp only: raws)
  also have "\<dots> = filter (\<lambda>(q, y). crit y) (filter ?raw (descendants soup))"
    by (rule same)
  also have "\<dots> = find_all crit soup"
    using raw by (rule find_all_raw_text [symmetric])
  finally show ?thesis .
qed

lemma loops_found:
  assumes "rewrite_links soup1 = Inr soup2" and "rewrite_scripts soup2 = Inr soup3"
    and "\<And>x. crit (map_tags (rewritten_attrs ''script'' ''src'')
                 (map_tags (rewritten_attrs ''link'' ''href'') x)) = crit x"
  shows "find_all crit soup3 =
     map (\<lambda>(p, x). (p, map_tags (rewritten_attrs ''script'' ''src'')
                         (map_tags (rewritten_attrs ''link'' ''href'') x)))
       (find_all crit soup1)"
proof -
  from loops_effect [of soup1] assms(1,2)
  have d: "descendants soup3 =
      map (\<lambda>(p, x). (p, map_tags (rewritten_attrs ''script'' ''src'')
                          (map_tags (rewritten_attrs ''link'' ''href'') x)))
        (descendants soup1)"
    by auto
  show ?thesis unfolding find_all_def d
    by (rule filter_map_same) (auto simp: assms(3))
qed

lemma initializer_count_before:
  assumes "well_formed soup" and "before_initializer soup = Inr soup3"
  shows "well_formed soup3"
    and "find_all is_initializer_script soup3 =
      map (\<lambda>(p, x). (p, map_tags (rewritten_attrs ''script'' ''src'')
                          (map_tags (rewritten_attrs ''link'' ''href'') x)))
        (find_all is_initializer_script soup)"
proof -
  from assms(2) obtain soup1 soup2 where steps: "set_title soup = Inr soup1"
    "rewrite_links soup1 = Inr soup2" "rewrite_scripts soup2 = Inr soup3"
    by (auto simp: before_initializer_def split: sum.splits)
  from set_title_effect [OF assms(1) steps(1)] have "well_formed soup1" by blast
  with loops_effect [of soup1] steps(2,3) show "well_formed soup3" by auto
  have "find_all is_initializer_script soup1 = find_all is_initializer_script soup"
    using assms(1) steps(1) by (rule set_title_keeps) (auto simp: initializer_raw_text)
  with loops_found [OF steps(2,3), of is_initializer_script]
  show "find_all is_initializer_script soup3 =
      map (\<lambda>(p, x). (p, map_tags (rewritten_attrs ''script'' ''src'')
                          (map_tags (rewritten_attrs ''link'' ''href'') x)))
        (find_all is_initializer_script soup)"
    by (simp add: is_initializer_script_map_tags)
qed

lemma before_initializer_succeeds:
  assumes "set_title soup = Inr soup1"
  shows "\<exists>soup3. before_initializer soup = Inr soup3"
  using loops_effect [of soup1] assms by (auto simp: before_initializer_def)

section \<open>The run and its failures\<close>

lemma main_failure:
  assumes "upstream_index fs = Some markup" and "transform (parse markup) = Inl e"
  shows "main parse prettify fs = (fs, Inl e)"
  using assms by (simp add: main_def)

lemma modify_at_set_string:
  assumes "(p, Tag n a cs) \<in> set (([], c) # descendants c)"
  shows "\<exists>c'. modify_at p (set_string s) c = Inr c'"
  using assms
proof (induction p arbitrary: c)
  case Nil
  then have "c = Tag n a cs" using descendants_path_not_Nil by fastforce
  then show ?case by simp
next
  case (Cons j p)
  from Cons.prems have in_c: "(j # p, Tag n a cs) \<in> set (descendants c)" by auto
  then obtain n' a' cs' where c: "c = Tag n' a' cs'" by (cases c) auto
  from in_c have j: "j < length cs'"
    and below: "(p, Tag n a cs) \<in> set (([], cs' ! j) # descendants (cs' ! j))"
    unfolding c in_descendants_Tag by auto
  from Cons.IH [OF below] obtain cj where "modify_at p (set_string s) (cs' ! j) = Inr cj"
    by blast
  with j show ?case by (simp add: c)
qed

lemma set_title_cases:
  "set_title soup = Inl AttributeError \<or> (\<exists>soup1. set_title soup = Inr soup1)"
proof (cases "find (name_is ''head'') soup")
  case None
  then show ?thesis by (simp add: set_title_def)
next
  case (Some r)
  obtain hp head where r: "r = (hp, head)" by (cases r)
  show ?thesis
  proof (cases "find (name_is ''title'') head")
    case None
    with Some r show ?thesis by (simp add: set_title_def)
  next
    case inner: (Some r')
    obtain tp title where r': "r' = (tp, title)" by (cases r')
    from find_Some [OF inner [unfolded r']] obtain a0 cs0 where
      t: "(tp, Tag ''title'' a0 cs0) \<in> set (descendants head)"
      using name_is_Tag by blast
    from find_Some(1) [OF Some [unfolded r]]
    have "(hp, head) \<in> set (([], soup) # descendants soup)" by simp
    from descendants_trans [OF this t]
    have "(hp @ tp, Tag ''title'' a0 cs0) \<in> set (([], soup) # descendants soup)" by simp
    from modify_at_set_string [OF this, of "''Encircle Public API''"]
    show ?thesis using Some r inner r' by (simp add: set_title_def)
  qed
qed

lemma before_initializer_cases:
  "(set_title soup = Inl AttributeError \<and> before_initializer soup = Inl AttributeError)
   \<or> (\<exists>soup1 soup3. set_title soup = Inr soup1 \<and> before_initializer soup = Inr soup3)"
  using set_title_cases [of soup]
proof
  assume "set_title soup = Inl AttributeError"
  then show ?thesis by (simp add: before_initializer_def)
next
  assume "\<exists>soup1. set_title soup = Inr soup1"
  then obtain soup1 where "set_title soup = Inr soup1" ..
  with before_initializer_succeeds [OF this] show ?thesis by blast
qed

text \<open>
  C2, as the script has it. Let the number of initializer scripts be other than one
  (none, or two and more): counted in the parsed input when that is well formed, or
  counted where the script counts them, at line 99, whenever the run gets there. Then the
  run ends with an exception and both files are as they were: the output file is not
  opened, nothing is written, and the content it had stays. The exception is
  \<open>AssertionError\<close> from line 100 when line 53 succeeded; when the head has no title the
  run has ended at line 53 with \<open>AttributeError\<close>, before any script is counted.
\<close>

theorem initializer_count_aborts:
  assumes "upstream_index fs = Some markup"
    and "(well_formed (parse markup)
          \<and> length (find_all is_initializer_script (parse markup)) \<noteq> 1)
       \<or> (\<forall>soup3. before_initializer (parse markup) = Inr soup3
             \<longrightarrow> length (find_all is_initializer_script soup3) \<noteq> 1)"
  shows "main parse prettify fs =
     (fs, Inl (if set_title (parse markup) = Inl AttributeError then AttributeError
               else AssertionError))"
  using before_initializer_cases [of "parse markup"]
proof
  assume "set_title (parse markup) = Inl AttributeError
    \<and> before_initializer (parse markup) = Inl AttributeError"
  then have "set_title (parse markup) = Inl AttributeError"
    and "transform (parse markup) = Inl AttributeError"
    by (simp_all add: transform_def)
  with main_failure [OF assms(1), of parse AttributeError prettify] show ?thesis by simp
next
  assume "\<exists>soup1 soup3. set_title (parse markup) = Inr soup1
    \<and> before_initializer (parse markup) = Inr soup3"
  then obtain soup1 soup3 where title: "set_title (parse markup) = Inr soup1"
    and before: "before_initializer (parse markup) = Inr soup3"
    by blast
  have "length (find_all is_initializer_script soup3) \<noteq> 1"
    using assms(2)
  proof
    assume wf: "well_formed (parse markup)
      \<and> length (find_all is_initializer_script (parse markup)) \<noteq> 1"
    then have "well_formed (parse markup)" ..
    from initializer_count_before(2) [OF this before]
    have "length (find_all is_initializer_script soup3) =
        length (find_all is_initializer_script (parse markup))"
      by simp
    with wf show ?thesis by simp
  next
    assume "\<forall>soup3. before_initializer (parse markup) = Inr soup3
      \<longrightarrow> length (find_all is_initializer_script soup3) \<noteq> 1"
    with before show ?thesis by blast
  qed
  then have "replace_initializer soup3 = Inl AssertionError"
    by (simp add: replace_initializer_def)
  with before have "transform (parse markup) = Inl AssertionError"
    by (simp add: transform_def)
  with main_failure [OF assms(1), of parse AssertionError prettify] title
  show ?thesis by simp
qed

theorem initializer_count_aborts_witness:
  "main
     (\<lambda>markup. Tag ''[document]'' []
        [Tag ''head'' [] [Tag ''title'' [] [NavigableString ''Swagger UI'']],
         Tag ''script'' [] [NavigableString ''window.onload=SwaggerUIBundle(''],
         Tag ''script'' [] [NavigableString ''window.onload=SwaggerUIBundle('']])
     (\<lambda>soup. ''written'')
     \<lparr>upstream_index = Some ''<html>'', output_index = Some ''old''\<rparr>
   = (\<lparr>upstream_index = Some ''<html>'', output_index = Some ''old''\<rparr>, Inl AssertionError)"
proof -
  let ?doc = "Tag ''[document]'' []
        [Tag ''head'' [] [Tag ''title'' [] [NavigableString ''Swagger UI'']],
         Tag ''script'' [] [NavigableString ''window.onload=SwaggerUIBundle(''],
         Tag ''script'' [] [NavigableString ''window.onload=SwaggerUIBundle('']]"
  let ?fs = "\<lparr>upstream_index = Some ''<html>'', output_index = Some ''old''\<rparr>"
  have up: "upstream_index ?fs = Some ''<html>''" by simp
  have count: "(well_formed ?doc \<and> length (find_all is_initializer_script ?doc) \<noteq> 1)
      \<or> (\<forall>soup3. before_initializer ?doc = Inr soup3
            \<longrightarrow> length (find_all is_initializer_script soup3) \<noteq> 1)"
    by (simp add: find_all_def onload_re_def bundle_re_def re_literal_def)
  have title: "set_title ?doc \<noteq> Inl AttributeError"
    by (simp add: set_title_def find_def find_all_def)
  from initializer_count_aborts [of ?fs "''<html>''" "\<lambda>markup. ?doc" "\<lambda>soup. ''written''",
      OF up count] title
  show ?thesis by simp
qed

text \<open>
  The claim as written fails: a document whose head has no title, and which has no
  initializer script, ends the run with \<open>AttributeError\<close> at line 53; the assertion of
  line 100 is never reached.
\<close>

theorem initializer_count_assertion_counterexample:
  "length (find_all is_initializer_script
     (Tag ''[document]'' [] [Tag ''html'' [] [Tag ''head'' [] [], Tag ''body'' [] []]])) = 0
   \<and> main
     (\<lambda>markup. Tag ''[document]'' [] [Tag ''html'' [] [Tag ''head'' [] [], Tag ''body'' [] []]])
     (\<lambda>soup. ''written'')
     \<lparr>upstream_index = Some ''<html>'', output_index = None\<rparr>
   = (\<lparr>upstream_index = Some ''<html>'', output_index = None\<rparr>, Inl AttributeError)"
  by (simp add: main_def transform_def before_initializer_def set_title_def find_def find_all_def)

text \<open>
  C7, as the script has it. When the parsed input has no \<open>title\<close> element, line 53
  reaches \<open>None\<close> (\<open>soup.head\<close> or \<open>soup.head.title\<close>) and the attribute access on it
  raises \<open>AttributeError\<close>; no assertion is involved. The run ends there and both files
  are as they were: no output file is written.
\<close>

theorem missing_title_attribute_error:
  assumes "upstream_index fs = Some markup"
    and "find_all (name_is ''title'') (parse markup) = []"
  shows "main parse prettify fs = (fs, Inl AttributeError)"
proof -
  have "set_title (parse markup) = Inl AttributeError"
  proof (cases "find (name_is ''head'') (parse markup)")
    case None
    then show ?thesis by (simp add: set_title_def)
  next
    case (Some r)
    obtain hp head where r: "r = (hp, head)" by (cases r)
    have "find (name_is ''title'') head = None"
    proof (cases "find (name_is ''title'') head")
      case None
      then show ?thesis .
    next
      case inner: (Some r')
      obtain tp title where r': "r' = (tp, title)" by (cases r')
      from find_Some(1) [OF Some [unfolded r]]
      have "(hp, head) \<in> set (([], parse markup) # descendants (parse markup))" by simp
      from descendants_trans [OF this find_Some(1) [OF inner [unfolded r']]]
        find_Some(2) [OF inner [unfolded r']]
      have "(hp @ tp, title) \<in> set (find_all (name_is ''title'') (parse markup))"
        unfolding find_all_member by simp
      with assms(2) show ?thesis by simp
    qed
    with Some r show ?thesis by (simp add: set_title_def)
  qed
  then have "transform (parse markup) = Inl AttributeError"
    by (simp add: transform_def before_initializer_def)
  with assms(1) show ?thesis by (rule main_failure)
qed

theorem missing_title_attribute_error_witness:
  "main
     (\<lambda>markup. Tag ''[document]'' []
        [Tag ''html'' [] [Tag ''head'' [] [],
           Tag ''body'' [] [Tag ''script'' [] [NavigableString ''window.onload=SwaggerUIBundle('']]]])
     (\<lambda>soup. ''written'')
     \<lparr>upstream_index = Some ''<html>'', output_index = Some ''old''\<rparr>
   = (\<lparr>upstream_index = Some ''<html>'', output_index = Some ''old''\<rparr>, Inl AttributeError)"
  by (rule missing_title_attribute_error) (simp_all add: find_all_def)

text \<open>
  The claim as written fails: on a document without a title, and with its one
  initializer script, the run ends with \<open>AttributeError\<close>, not with \<open>AssertionError\<close>.
\<close>

theorem missing_title_assertion_counterexample:
  "snd (main
     (\<lambda>markup. Tag ''[document]'' []
        [Tag ''html'' [] [Tag ''head'' [] [],
           Tag ''body'' [] [Tag ''script'' [] [NavigableString ''window.onload=SwaggerUIBundle('']]]])
     (\<lambda>soup. ''written'')
     \<lparr>upstream_index = Some ''<html>'', output_index = None\<rparr>) = Inl AttributeError
   \<and> snd (main
     (\<lambda>markup. Tag ''[document]'' []
        [Tag ''html'' [] [Tag ''head'' [] [],
           Tag ''body'' [] [Tag ''script'' [] [NavigableString ''window.onload=SwaggerUIBundle('']]]])
     (\<lambda>soup. ''written'')
     \<lparr>upstream_index = Some ''<html>'', output_index = None\<rparr>) \<noteq> Inl AssertionError"
  by (simp add: main_def transform_def before_initializer_def set_title_def find_def find_all_def)

section \<open>The script texts and the title after the run\<close>










section \<open>The run on the example document\<close>






lemma example_index_output:
  "transform example_index =
     Inr (Tag ''[document]'' []
       [Comment ''doctype'',
        Tag ''html'' []
          [Tag ''head'' []
             [Tag ''title'' [] [NavigableString ''Encircle Public API''],
              Tag ''link''
                [(''rel'', ''stylesheet''),
                 (''href'', ''./node_modules/swagger-ui-dist/swagger-ui.css'')] []],
           Tag ''body'' []
             [Tag ''div'' [(''id'', ''swagger-ui'')] [],
              Tag ''script'' [(''src'', ''./node_modules/swagger-ui-dist/swagger-ui-bundle.js'')] [],
              Tag ''script'' [] [NavigableString ''var x = 1;''],
              Tag ''script'' [] [NavigableString initializer_template]]]])"
  by (simp add: example_index_def transform_def before_initializer_def set_title_def
      find_def find_all_def rewrite_links_def rewrite_scripts_def relative_re_search_def
      re_literal_def rewrite_link_def replace_initializer_def onload_re_def bundle_re_def
      isspace_def)




section \<open>What the written file holds\<close>







end
